theory Spec2Isabelle
  imports Main
begin

section \<open>Python string and path primitives used by \<open>mkdocs/build.py\<close>\<close>

text \<open>
  Strings are lists of characters. The primitives below are the ones of the Python
  standard library that \<open>build.py\<close> calls, with their POSIX behaviour
  (\<open>os.path.pathsep\<close> is the colon, \<open>os.sep\<close> the slash).
\<close>

definition py_startswith :: "string \<Rightarrow> string \<Rightarrow> bool" where
  "py_startswith p s = (take (length p) s = p)"

definition py_endswith :: "string \<Rightarrow> string \<Rightarrow> bool" where
  "py_endswith p s = (length p \<le> length s \<and> drop (length s - length p) s = p)"

text \<open>\<open>s.replace(a, b)\<close> for one-character \<open>a\<close> and \<open>b\<close>.\<close>

definition py_replace :: "char \<Rightarrow> char \<Rightarrow> string \<Rightarrow> string" where
  "py_replace a b s = map (\<lambda>c. if c = a then b else c) s"

text \<open>\<open>s.rstrip(cs)\<close>: drops from the right end every character that occurs in \<open>cs\<close>.\<close>

definition py_rstrip :: "string \<Rightarrow> string \<Rightarrow> string" where
  "py_rstrip cs s = rev (dropWhile (\<lambda>c. c \<in> set cs) (rev s))"

text \<open>The whitespace that \<open>str.strip()\<close> removes: space, tab, LF, VT, FF, CR.\<close>

definition py_isspace :: "char \<Rightarrow> bool" where
  "py_isspace c = (c = CHR '' '' \<or> c = CHR 0x09 \<or> c = CHR 0x0A \<or> c = CHR 0x0B
                   \<or> c = CHR 0x0C \<or> c = CHR 0x0D)"

definition py_strip :: "string \<Rightarrow> string" where
  "py_strip s = rev (dropWhile py_isspace (rev (dropWhile py_isspace s)))"

text \<open>\<open>s.partition(c)\<close>: split at the first occurrence of the separator.\<close>

definition py_partition :: "char \<Rightarrow> string \<Rightarrow> string \<times> string \<times> string" where
  "py_partition c s =
     (if c \<in> set s
      then (takeWhile (\<lambda>x. x \<noteq> c) s, [c], tl (dropWhile (\<lambda>x. x \<noteq> c) s))
      else (s, [], []))"

text \<open>\<open>s.rfind(c)\<close>: the last index of \<open>c\<close>, or \<open>-1\<close>.\<close>

definition py_rfind :: "char \<Rightarrow> string \<Rightarrow> int" where
  "py_rfind c s =
     (if c \<in> set s
      then int (length s) - 1 - int (length (takeWhile (\<lambda>x. x \<noteq> c) (rev s)))
      else - 1)"

text \<open>
  \<open>os.path.splitext\<close> (\<open>genericpath._splitext\<close> with separator \<open>/\<close> and extension
  separator \<open>.\<close>). The inner loop skips the leading dots of the file name: it answers
  whether a character other than the dot stands between \<open>filenameIndex\<close> and \<open>dotIndex\<close>.
\<close>

function splitext_scan :: "string \<Rightarrow> nat \<Rightarrow> nat \<Rightarrow> bool" where
  "splitext_scan p filenameIndex dotIndex =
     (if filenameIndex < dotIndex
      then (if p ! filenameIndex \<noteq> CHR ''.'' then True
            else splitext_scan p (Suc filenameIndex) dotIndex)
      else False)"
  by pat_completeness auto
termination
  by (relation "measure (\<lambda>(p, f, d). d - f)") auto

declare splitext_scan.simps [simp del]

definition py_splitext :: "string \<Rightarrow> string \<times> string" where
  "py_splitext p =
     (let sepIndex = py_rfind CHR ''/'' p;
          dotIndex = py_rfind CHR ''.'' p
      in if dotIndex > sepIndex \<and> splitext_scan p (nat (sepIndex + 1)) (nat dotIndex)
         then (take (nat dotIndex) p, drop (nat dotIndex) p)
         else (p, []))"

definition pathsep :: char where
  "pathsep = CHR '':''"

text \<open>\<open>xs.index(x)\<close>: the first position of \<open>x\<close>; Python raises ValueError when there is none.\<close>

fun py_index :: "'a list \<Rightarrow> 'a \<Rightarrow> nat option" where
  "py_index [] x = None"
| "py_index (y # ys) x = (if y = x then Some 0 else map_option Suc (py_index ys x))"

section \<open>Data model\<close>

text \<open>
  The configuration is a dictionary read by key; the keys the build pipeline reads are
  the fields of the record. \<open>pages\<close> is the ordered list of (path, title) pairs.
\<close>

record config =
  pages :: "(string \<times> string) list"
  docs_dir :: string
  build_dir :: string
  theme_dir :: string
  base_url :: string
  project_name :: string
  local_files :: bool

text \<open>
  \<open>class NavItem\<close>: title, url (\<open>None\<close> for a group header), children, and the
  mutable flag \<open>active\<close>, which the constructor sets to \<open>False\<close>.
\<close>

datatype navitem =
  NavItem (title: string) (url: "string option") (children: "navitem list") (active: bool)

definition new_NavItem :: "string \<Rightarrow> string option \<Rightarrow> navitem list \<Rightarrow> navitem" where
  "new_NavItem t u cs = NavItem t u cs False"

text \<open>The exceptions the modelled functions can raise.\<close>

datatype error = ValueError | IndexError

section \<open>URL resolver\<close>

text \<open>
  \<open>get_html_path\<close> is imported from \<open>mkdocs.utils\<close>; it is a parameter of the model
  (first argument \<open>ghp\<close>) and is only called in local-files mode.
\<close>

definition path_to_url :: "(string \<Rightarrow> string) \<Rightarrow> string \<Rightarrow> config \<Rightarrow> string" where
  "path_to_url ghp path config =
     (if local_files config
      then (let path1 = ghp path;
                url = py_replace pathsep CHR ''/'' path1
            in base_url config @ ''/'' @ url)
      else (let path1 = fst (py_splitext path);
                url = py_replace pathsep CHR ''/'' path1;
                url = base_url config @ ''/'' @ url
            in if url = ''index'' \<or> py_endswith ''/index'' url
               then py_rstrip ''index'' url
               else url @ ''/''))"

definition path_to_previous_and_next_urls ::
  "(string \<Rightarrow> string) \<Rightarrow> string \<Rightarrow> config \<Rightarrow> error + (string option \<times> string option)" where
  "path_to_previous_and_next_urls ghp path config =
     (let paths = map fst (pages config)
      in case py_index paths path of
           None \<Rightarrow> Inl ValueError
         | Some idx \<Rightarrow>
             (let prev = (if idx = 0 then None
                          else Some (path_to_url ghp (paths ! (idx - 1)) config));
                  next = (if idx + 1 \<ge> length paths then None
                          else Some (path_to_url ghp (paths ! (idx + 1)) config))
              in Inr (prev, next)))"

section \<open>Navigation builder\<close>

text \<open>
  \<open>generate_nav\<close>: one pass over \<open>config['pages']\<close>, appending to \<open>ret\<close>.
  \<open>nav_step\<close> is the loop body; in the third branch the last element of \<open>ret\<close> is the
  object whose \<open>children\<close> list grows.
\<close>

definition append_child :: "navitem \<Rightarrow> navitem \<Rightarrow> navitem" where
  "append_child parent nav =
     NavItem (title parent) (url parent) (children parent @ [nav]) (active parent)"

definition nav_step ::
  "(string \<Rightarrow> string) \<Rightarrow> config \<Rightarrow> navitem list \<Rightarrow> string \<times> string \<Rightarrow> navitem list" where
  "nav_step ghp config ret page =
     (let path = fst page;
          url = path_to_url ghp path config;
          parts = py_partition CHR ''/'' (snd page);
          title = py_strip (fst parts);
          child_title = py_strip (snd (snd parts))
      in if child_title = []
         then ret @ [new_NavItem title (Some url) []]
         else if ret = [] \<or> navitem.title (last ret) \<noteq> title
         then ret @ [new_NavItem title None [new_NavItem child_title (Some url) []]]
         else butlast ret @ [append_child (last ret) (new_NavItem child_title (Some url) [])])"

definition generate_nav :: "(string \<Rightarrow> string) \<Rightarrow> config \<Rightarrow> navitem list" where
  "generate_nav ghp config = foldl (nav_step ghp config) [] (pages config)"

section \<open>Active-path marker\<close>

text \<open>
  A reference to a NavItem inside a tree is its position: \<open>[i]\<close> is the \<open>i\<close>-th
  top-level item, \<open>[i, j]\<close> its \<open>j\<close>-th child, and so on. \<open>set_nav_active\<close> returns the
  reference it holds in \<open>active\<close> (or \<open>None\<close>) together with the tree after the
  assignments to the \<open>active\<close> fields.
\<close>

type_synonym navref = "nat list"

fun nav_lookup :: "navitem list \<Rightarrow> navref \<Rightarrow> navitem option" where
  "nav_lookup ns [] = None"
| "nav_lookup ns [i] = (if i < length ns then Some (ns ! i) else None)"
| "nav_lookup ns (i # r) = (if i < length ns then nav_lookup (children (ns ! i)) r else None)"

definition set_active :: "bool \<Rightarrow> navitem \<Rightarrow> navitem" where
  "set_active b n = NavItem (title n) (url n) (children n) b"

text \<open>
  The inner loop over \<open>nav_item.children\<close>, for the \<open>i\<close>-th top-level item, at child
  index \<open>j\<close>. The state is the parent's \<open>active\<close> flag and the variable \<open>active\<close>.
\<close>

fun children_loop ::
  "string \<Rightarrow> nat \<Rightarrow> nat \<Rightarrow> navitem list \<Rightarrow> bool \<times> navref option
     \<Rightarrow> navitem list \<times> bool \<times> navref option" where
  "children_loop u i j [] st = ([], st)"
| "children_loop u i j (child # cs) st =
     (if url child = Some u
      then (let r = children_loop u i (Suc j) cs (True, Some [i, j])
            in (set_active True child # fst r, snd r))
      else (let r = children_loop u i (Suc j) cs st
            in (set_active False child # fst r, snd r)))"

text \<open>The outer loop over \<open>nav\<close>, at top-level index \<open>i\<close>.\<close>

fun nav_loop ::
  "string \<Rightarrow> nat \<Rightarrow> navitem list \<Rightarrow> navref option \<Rightarrow> navitem list \<times> navref option" where
  "nav_loop u i [] act = ([], act)"
| "nav_loop u i (nav_item # ns) act =
     (let st = (if url nav_item = Some u then (True, Some [i]) else (False, act));
          r = children_loop u i 0 (children nav_item) st;
          nav_item1 = NavItem (title nav_item) (url nav_item) (fst r) (fst (snd r));
          rest = nav_loop u (Suc i) ns (snd (snd r))
      in (nav_item1 # fst rest, snd rest))"

definition set_nav_active ::
  "(string \<Rightarrow> string) \<Rightarrow> string \<Rightarrow> config \<Rightarrow> navitem list \<Rightarrow> navref option \<times> navitem list" where
  "set_nav_active ghp path config nav =
     (let url = path_to_url ghp path config;
          r = nav_loop url 0 nav None
      in (snd r, fst r))"

text \<open>The number of items flagged active, among the top-level items and their children.\<close>

definition count_active :: "navitem list \<Rightarrow> nat" where
  "count_active nav =
     length (filter active nav) + length (filter active (concat (map children nav)))"

section \<open>Table-of-contents extractor\<close>

text \<open>
  \<open>str.splitlines\<close>: a line ends at LF, CR, CR LF, VT, FF, FS, GS, RS or NEL; the
  terminators are dropped and a terminator at the very end opens no further line.
\<close>

definition py_linebreak :: "char \<Rightarrow> bool" where
  "py_linebreak c = (c = CHR 0x0A \<or> c = CHR 0x0D \<or> c = CHR 0x0B \<or> c = CHR 0x0C
                     \<or> c = CHR 0x1C \<or> c = CHR 0x1D \<or> c = CHR 0x1E \<or> c = CHR 0x85)"

fun splitlines_aux :: "string \<Rightarrow> string \<Rightarrow> string list" where
  "splitlines_aux cur [] = (if cur = [] then [] else [cur])"
| "splitlines_aux cur (c # s) =
     (if c = CHR 0x0D
      then (case s of
              d # s1 \<Rightarrow> if d = CHR 0x0A then cur # splitlines_aux [] s1
                         else cur # splitlines_aux [] s
            | [] \<Rightarrow> cur # splitlines_aux [] s)
      else if py_linebreak c then cur # splitlines_aux [] s
      else splitlines_aux (cur @ [c]) s)"

definition py_splitlines :: "string \<Rightarrow> string list" where
  "py_splitlines s = splitlines_aux [] s"

text \<open>The slice \<open>xs[2:-2]\<close>.\<close>

definition slice_2_m2 :: "'a list \<Rightarrow> 'a list" where
  "slice_2_m2 xs = drop 2 (take (length xs - 2) xs)"

text \<open>
  \<open>TOC_LINK_REGEX.search(line)\<close> for the pattern
  \<^verbatim>\<open><a href=["]([^"]*)["]>([^<]*)</a>\<close>. At a start position the match is determined:
  the first group runs to the next double quote, which must be followed by \<open>>\<close>; the
  second group runs to the next \<open><\<close>, where \<open></a>\<close> must stand. \<open>search\<close> takes the
  leftmost start position that matches.
\<close>

definition dquote :: char where
  "dquote = CHR 0x22"

definition toc_link_match :: "string \<Rightarrow> (string \<times> string) option" where
  "toc_link_match s =
     (if py_startswith (''<a href='' @ [dquote]) s
      then (let r = drop 9 s;
                href = takeWhile (\<lambda>c. c \<noteq> dquote) r;
                r1 = dropWhile (\<lambda>c. c \<noteq> dquote) r
            in if py_startswith (dquote # ''>'') r1
               then (let r2 = drop 2 r1;
                         ttl = takeWhile (\<lambda>c. c \<noteq> CHR ''<'') r2;
                         r3 = dropWhile (\<lambda>c. c \<noteq> CHR ''<'') r2
                     in if py_startswith ''</a>'' r3 then Some (href, ttl) else None)
               else None)
      else None)"

fun toc_link_search :: "string \<Rightarrow> (string \<times> string) option" where
  "toc_link_search [] = toc_link_match []"
| "toc_link_search (c # s) =
     (case toc_link_match (c # s) of
        Some g \<Rightarrow> Some g
      | None \<Rightarrow> toc_link_search s)"

text \<open>
  \<open>r.children.append(nav)\<close> for the item that the reference \<open>r\<close> points to, and the
  number of children that item has.
\<close>

fun append_at :: "navref \<Rightarrow> navitem \<Rightarrow> navitem list \<Rightarrow> navitem list" where
  "append_at [] nav ns = ns"
| "append_at [i] nav ns =
     (if i < length ns then ns[i := append_child (ns ! i) nav] else ns)"
| "append_at (i # r) nav ns =
     (if i < length ns
      then ns[i := NavItem (title (ns ! i)) (url (ns ! i))
                     (append_at r nav (children (ns ! i))) (active (ns ! i))]
      else ns)"

definition nchildren_at :: "navitem list \<Rightarrow> navref \<Rightarrow> nat" where
  "nchildren_at ns r = (case nav_lookup ns r of Some n \<Rightarrow> length (children n) | None \<Rightarrow> 0)"

text \<open>
  The body of the loop of \<open>generate_toc\<close>. The state is \<open>ret\<close> and the stack \<open>parents\<close>
  (top at the end, as in the Python list) of references into \<open>ret\<close>; a new item is
  referenced by the place where it was appended. \<open>parents.pop()\<close> on the empty list
  raises IndexError.
\<close>

definition toc_step ::
  "navitem list \<times> navref list \<Rightarrow> string \<Rightarrow> error + (navitem list \<times> navref list)" where
  "toc_step st line =
     (let ret = fst st; parents = snd st
      in case toc_link_search line of
           Some (href, ttl) \<Rightarrow>
             (let nav = new_NavItem ttl (Some href) [];
                  ref = (if parents \<noteq> []
                         then last parents @ [nchildren_at ret (last parents)]
                         else [length ret]);
                  ret1 = (if parents \<noteq> [] then append_at (last parents) nav ret
                          else ret @ [nav]);
                  parents1 = (if py_endswith ''<ul>'' line then parents @ [ref] else parents)
              in Inr (ret1, parents1))
         | None \<Rightarrow>
             (if py_startswith ''</ul>'' line
              then (if parents = [] then Inl IndexError else Inr (ret, butlast parents))
              else Inr (ret, parents)))"

fun toc_loop ::
  "string list \<Rightarrow> navitem list \<times> navref list \<Rightarrow> error + (navitem list \<times> navref list)" where
  "toc_loop [] st = Inr st"
| "toc_loop (line # lines) st =
     (case toc_step st line of
        Inl e \<Rightarrow> Inl e
      | Inr st1 \<Rightarrow> toc_loop lines st1)"

definition generate_toc :: "string \<Rightarrow> error + navitem list" where
  "generate_toc toc_html =
     (let lines = slice_2_m2 (py_splitlines toc_html)
      in case toc_loop lines ([], []) of
           Inl e \<Rightarrow> Inl e
         | Inr st \<Rightarrow>
             (case fst st of
                [] \<Rightarrow> Inr []
              | n # ns \<Rightarrow> Inr (set_active True n # ns)))"

section \<open>Link rewriting in the page renderer\<close>

text \<open>
  \<open>re.sub(r'a href="([^"]*\.md)"', PathToURL(config), content)\<close>. At a start position
  the pattern matches exactly when \<^verbatim>\<open>a href="\<close> stands there, a closing double quote
  follows, and the text between the two quotes ends in \<open>.md\<close>; the group is that text.
  \<open>link_match\<close> returns the group and the text after the match. \<open>re.sub\<close> scans from
  the left, replaces each match by the callback's result and resumes after the match;
  where nothing matches it copies one character.
\<close>

definition link_match :: "string \<Rightarrow> (string \<times> string) option" where
  "link_match s =
     (if py_startswith (''a href='' @ [dquote]) s
      then (let r = drop 8 s;
                g = takeWhile (\<lambda>c. c \<noteq> dquote) r;
                r1 = dropWhile (\<lambda>c. c \<noteq> dquote) r
            in if r1 \<noteq> [] \<and> py_endswith ''.md'' g then Some (g, tl r1) else None)
      else None)"

definition PathToURL :: "(string \<Rightarrow> string) \<Rightarrow> config \<Rightarrow> string \<Rightarrow> string" where
  "PathToURL ghp config path = ''a href='' @ [dquote] @ path_to_url ghp path config @ [dquote]"

lemma link_match_shorter: "link_match s = Some (g, rest) \<Longrightarrow> length rest < length s"
proof -
  assume a: "link_match s = Some (g, rest)"
  let ?d = "dropWhile (\<lambda>c. c \<noteq> dquote) (drop 8 s)"
  from a have ne: "?d \<noteq> []" and r: "rest = tl ?d"
    by (auto simp: link_match_def Let_def split: if_splits)
  have "length ?d \<le> length (drop 8 s)"
    by (rule length_dropWhile_le)
  moreover from ne have "length (tl ?d) < length ?d"
    by (cases ?d) auto
  ultimately show ?thesis
    using r by simp
qed

function rewrite_links :: "(string \<Rightarrow> string) \<Rightarrow> config \<Rightarrow> string \<Rightarrow> string" where
  "rewrite_links ghp config s =
     (case link_match s of
        Some (g, rest) \<Rightarrow> PathToURL ghp config g @ rewrite_links ghp config rest
      | None \<Rightarrow> (case s of [] \<Rightarrow> [] | c # cs \<Rightarrow> c # rewrite_links ghp config cs))"
  by pat_completeness auto
termination
  by (relation "measure (\<lambda>(ghp, config, s). length s)") (auto dest: link_match_shorter)

declare rewrite_links.simps [simp del]

section \<open>Notions used to state the properties\<close>

text \<open>The segments of a URL: the pieces between slashes.\<close>

fun split_aux :: "char \<Rightarrow> string \<Rightarrow> string \<Rightarrow> string list" where
  "split_aux c cur [] = [cur]"
| "split_aux c cur (x # s) =
     (if x = c then cur # split_aux c [] s else split_aux c (cur @ [x]) s)"

definition url_segments :: "string \<Rightarrow> string list" where
  "url_segments s = split_aux CHR ''/'' [] s"

text \<open>A configuration with the given base URL, URL style and page list, for concrete runs.\<close>

definition example_config :: "string \<Rightarrow> bool \<Rightarrow> (string \<times> string) list \<Rightarrow> config" where
  "example_config b lf ps = \<lparr>pages = ps, docs_dir = ''docs'', build_dir = ''site'',
     theme_dir = ''theme'', base_url = b, project_name = ''docs'', local_files = lf\<rparr>"

text \<open>The page list of the navigation example.\<close>

definition pages_c1 :: "(string \<times> string) list" where
  "pages_c1 = [(''a.md'', ''Intro''), (''b.md'', ''Guide/Setup''),
               (''c.md'', ''Guide/Run''), (''d.md'', ''Guide/Setup'')]"

text \<open>
  What one call of \<open>set_nav_active\<close> makes of a top-level item, in closed form; an
  item with its \<open>active\<close> flags erased (its own and its children's); and the URLs that
  a tree carries, in order.
\<close>

definition has_match :: "string \<Rightarrow> navitem \<Rightarrow> bool" where
  "has_match u n = (url n = Some u \<or> (\<exists>c\<in>set (children n). url c = Some u))"

definition marked :: "string \<Rightarrow> navitem \<Rightarrow> navitem" where
  "marked u n = NavItem (title n) (url n)
                  (map (\<lambda>c. set_active (url c = Some u) c) (children n)) (has_match u n)"

definition clear_active :: "navitem \<Rightarrow> navitem" where
  "clear_active n = NavItem (title n) (url n) (map (set_active False) (children n)) False"

definition opt_list :: "'a option \<Rightarrow> 'a list" where
  "opt_list x = (case x of None \<Rightarrow> [] | Some v \<Rightarrow> [v])"

definition node_urls :: "navitem \<Rightarrow> string list" where
  "node_urls n = opt_list (url n) @ concat (map (\<lambda>c. opt_list (url c)) (children n))"

definition nav_urls :: "navitem list \<Rightarrow> string list" where
  "nav_urls nav = concat (map node_urls nav)"

definition child_urls :: "navitem list \<Rightarrow> string list" where
  "child_urls nav = concat (map (\<lambda>c. opt_list (url c)) (concat (map children nav)))"

text \<open>Text made of lines, each ended by a line feed, and the lines of the TOC example.\<close>

definition join_lines :: "string list \<Rightarrow> string" where
  "join_lines ls = concat (map (\<lambda>l. l @ [CHR 0x0A]) ls)"

definition toc_line_A :: string where
  "toc_line_A = ''<li><a href='' @ [dquote] @ ''#a'' @ [dquote] @ ''>A</a><ul>''"

definition toc_line_A1 :: string where
  "toc_line_A1 = ''<li><a href='' @ [dquote] @ ''#a-1'' @ [dquote] @ ''>A1</a></li>''"

definition toc_six :: "string list" where
  "toc_six = [''<ul>'', toc_line_A, toc_line_A1, ''</ul>'', ''</li>'', ''</ul>'']"

definition toc_five :: "string list" where
  "toc_five = [''<ul>'', toc_line_A, toc_line_A1, ''</ul>'', ''</li>'']"

section \<open>Properties of the URL resolver\<close>

lemma py_index_None: "py_index xs x = None \<longleftrightarrow> x \<notin> set xs"
  by (induction xs) auto

lemma py_index_distinct: "distinct xs \<Longrightarrow> i < length xs \<Longrightarrow> py_index xs (xs ! i) = Some i"
proof (induction xs arbitrary: i)
  case Nil
  then show ?case by simp
next
  case (Cons a xs)
  show ?case
  proof (cases i)
    case 0
    then show ?thesis by simp
  next
    case (Suc k)
    with Cons.prems have "k < length xs" "distinct xs" "xs ! k \<noteq> a"
      by auto
    with Cons.IH[of k] Suc show ?thesis by auto
  qed
qed

text \<open>
  Claim C5. When the page paths are pairwise distinct, the previous/next URLs of the
  \<open>i\<close>-th declared page are those of its neighbours in the declared order: the
  previous one is absent exactly for the first page, the next one exactly for the last.
\<close>

theorem prev_next_follow_declared_order:
  assumes "distinct (map fst (pages config))" and "i < length (pages config)"
  shows "path_to_previous_and_next_urls ghp (fst (pages config ! i)) config =
           Inr (if i = 0 then None
                else Some (path_to_url ghp (fst (pages config ! (i - 1))) config),
                if i + 1 = length (pages config) then None
                else Some (path_to_url ghp (fst (pages config ! (i + 1))) config))"
proof -
  let ?paths = "map fst (pages config)"
  have "py_index ?paths (?paths ! i) = Some i"
    using assms by (intro py_index_distinct) auto
  then have "py_index ?paths (fst (pages config ! i)) = Some i"
    using assms(2) by simp
  then show ?thesis
    using assms(2) by (auto simp: path_to_previous_and_next_urls_def Let_def)
qed

theorem prev_next_follow_declared_order_witness:
  "path_to_previous_and_next_urls id ''b.md''
     (example_config ''/site'' False [(''a.md'', ''A''), (''b.md'', ''B''), (''c.md'', ''C'')])
   = Inr (Some ''/site/a/'', Some ''/site/c/'')
   \<and> path_to_previous_and_next_urls id ''a.md''
     (example_config ''/site'' False [(''a.md'', ''A''), (''b.md'', ''B''), (''c.md'', ''C'')])
   = Inr (None, Some ''/site/b/'')"
  using prev_next_follow_declared_order
          [of "example_config ''/site'' False [(''a.md'', ''A''), (''b.md'', ''B''), (''c.md'', ''C'')]"
              1 id]
        prev_next_follow_declared_order
          [of "example_config ''/site'' False [(''a.md'', ''A''), (''b.md'', ''B''), (''c.md'', ''C'')]"
              0 id]
  by (simp add: example_config_def path_to_url_def py_splitext_def py_rfind_def
      splitext_scan.simps py_replace_def pathsep_def py_endswith_def)

text \<open>
  Claim C6. The lookup raises (\<open>list.index\<close> raises ValueError, the NotFound
  condition) exactly when the path is not among the declared page paths, and returns
  normally exactly when it is.
\<close>

theorem prev_next_not_found_iff:
  "(path_to_previous_and_next_urls ghp path config = Inl ValueError)
     = (path \<notin> fst ` set (pages config))
   \<and> (\<exists>r. path_to_previous_and_next_urls ghp path config = Inr r)
     = (path \<in> fst ` set (pages config))"
  using py_index_None[of "map fst (pages config)" path]
  by (auto simp: path_to_previous_and_next_urls_def Let_def split: option.splits)

section \<open>Clean URLs\<close>

lemma split_aux_snoc_sep: "split_aux c cur (s @ [c]) = split_aux c cur s @ [[]]"
  by (induction s arbitrary: cur) auto

lemma py_endswith_append: "py_endswith p s \<longleftrightarrow> (\<exists>t. s = t @ p)"
proof
  assume "py_endswith p s"
  then have "s = take (length s - length p) s @ p"
    by (metis py_endswith_def append_take_drop_id)
  then show "\<exists>t. s = t @ p" ..
next
  assume "\<exists>t. s = t @ p"
  then show "py_endswith p s" by (auto simp: py_endswith_def)
qed

lemma rstrip_index: "py_rstrip ''index'' (t @ ''/index'') = t @ ''/''"
  by (simp add: py_rstrip_def)

lemma clean_url_unfold:
  "\<not> local_files config \<Longrightarrow>
   path_to_url ghp path config =
     (let url = base_url config @ ''/'' @ py_replace pathsep CHR ''/'' (fst (py_splitext path))
      in if py_endswith ''/index'' url then py_rstrip ''index'' url else url @ ''/'')"
proof -
  assume nl: "\<not> local_files config"
  have "base_url config @ ''/'' @ x \<noteq> ''index''" for x
  proof
    assume "base_url config @ ''/'' @ x = ''index''"
    moreover have "CHR ''/'' \<in> set (base_url config @ ''/'' @ x)"
      by simp
    ultimately have "CHR ''/'' \<in> set ''index''"
      by (simp only:)
    then show False by simp
  qed
  with nl show ?thesis
    by (simp add: path_to_url_def Let_def)
qed

lemma clean_url_ends_in_slash:
  assumes "\<not> local_files config"
  shows "py_endswith ''/'' (path_to_url ghp path config)"
proof -
  let ?url = "base_url config @ ''/'' @ py_replace pathsep CHR ''/'' (fst (py_splitext path))"
  show ?thesis
  proof (cases "py_endswith ''/index'' ?url")
    case True
    then obtain t where t: "?url = t @ ''/index''"
      using py_endswith_append by blast
    have "path_to_url ghp path config = py_rstrip ''index'' ?url"
      using assms True by (simp add: clean_url_unfold Let_def)
    also have "\<dots> = t @ ''/''"
      unfolding t by (rule rstrip_index)
    finally show ?thesis
      by (simp add: py_endswith_append)
  next
    case False
    then have "path_to_url ghp path config = ?url @ ''/''"
      using assms by (simp add: clean_url_unfold Let_def)
    then show ?thesis
      by (simp add: py_endswith_append)
  qed
qed

lemma splitext_index_md: "py_splitext ''index.md'' = (''index'', ''.md'')"
  by (simp add: py_splitext_def py_rfind_def splitext_scan.simps)

lemma splitext_guide_install_md: "py_splitext ''guide/install.md'' = (''guide/install'', ''.md'')"
  by (simp add: py_splitext_def py_rfind_def splitext_scan.simps)

lemma clean_url_index_md:
  assumes "\<not> local_files config"
  shows "path_to_url ghp ''index.md'' config = base_url config @ ''/''"
proof -
  have e: "py_endswith ''/index'' (base_url config @ ''/index'')"
    by (simp add: py_endswith_append)
  have "path_to_url ghp ''index.md'' config = py_rstrip ''index'' (base_url config @ ''/index'')"
    using assms e by (simp add: clean_url_unfold splitext_index_md py_replace_def pathsep_def)
  then show ?thesis
    by (simp add: rstrip_index)
qed

lemma clean_url_guide_install:
  assumes "\<not> local_files config"
  shows "path_to_url ghp ''guide/install.md'' config = base_url config @ ''/guide/install/''"
proof -
  have e: "\<not> py_endswith ''/index'' (base_url config @ ''/guide/install'')"
    by (simp add: py_endswith_def)
  show ?thesis
    using assms e
    by (simp add: clean_url_unfold splitext_guide_install_md py_replace_def pathsep_def)
qed

text \<open>
  Claim C7, as stated, fails where the base URL itself has an \<open>index\<close> segment: the
  URL of \<open>index.md\<close> is the base URL and a slash, so the segment is still there.
\<close>

theorem clean_url_index_counterexample:
  "\<not> local_files (example_config ''http://example.com/index'' False [])
   \<and> ''index'' \<in> set (url_segments
        (path_to_url id ''index.md'' (example_config ''http://example.com/index'' False [])))"
  by code_simp

text \<open>
  Claim C7, amended. In clean-URL mode the URL of \<open>index.md\<close> is the base URL followed
  by a slash, so it has an \<open>index\<close> segment only if the base URL has one; the URL of
  \<open>guide/install.md\<close> ends in \<open>/guide/install/\<close>; every URL ends in a slash.
\<close>

theorem clean_url_shape:
  assumes "\<not> local_files config"
  shows "path_to_url ghp ''index.md'' config = base_url config @ ''/''
       \<and> (''index'' \<in> set (url_segments (path_to_url ghp ''index.md'' config))
            \<longleftrightarrow> ''index'' \<in> set (url_segments (base_url config)))
       \<and> py_endswith ''/guide/install/'' (path_to_url ghp ''guide/install.md'' config)
       \<and> (\<forall>path. py_endswith ''/'' (path_to_url ghp path config))"
proof -
  have 1: "path_to_url ghp ''index.md'' config = base_url config @ ''/''"
    using assms by (rule clean_url_index_md)
  have "url_segments (base_url config @ ''/'') = url_segments (base_url config) @ [[]]"
    unfolding url_segments_def by (rule split_aux_snoc_sep)
  with 1 have 2: "''index'' \<in> set (url_segments (path_to_url ghp ''index.md'' config))
            \<longleftrightarrow> ''index'' \<in> set (url_segments (base_url config))"
    by simp
  have 3: "py_endswith ''/guide/install/'' (path_to_url ghp ''guide/install.md'' config)"
    using assms by (simp add: clean_url_guide_install py_endswith_append)
  have 4: "\<forall>path. py_endswith ''/'' (path_to_url ghp path config)"
    using assms by (simp add: clean_url_ends_in_slash)
  from 1 2 3 4 show ?thesis by blast
qed

theorem clean_url_shape_witness:
  "path_to_url id ''index.md'' (example_config ''http://example.com'' False []) = ''http://example.com/''
   \<and> ''index'' \<notin> set (url_segments
         (path_to_url id ''index.md'' (example_config ''http://example.com'' False [])))
   \<and> py_endswith ''/'' (path_to_url id ''a/b.c/.d'' (example_config ''http://example.com'' False []))"
proof -
  have n: "\<not> local_files (example_config ''http://example.com'' False [])"
    by (simp add: example_config_def)
  have b: "base_url (example_config ''http://example.com'' False []) = ''http://example.com''"
    by (simp add: example_config_def)
  have s: "''index'' \<notin> set (url_segments ''http://example.com'')"
    by code_simp
  let ?c = "example_config ''http://example.com'' False []"
  from clean_url_shape [OF n, of id]
  have 1: "path_to_url id ''index.md'' ?c = base_url ?c @ ''/''"
    and 2: "''index'' \<in> set (url_segments (path_to_url id ''index.md'' ?c))
            \<longleftrightarrow> ''index'' \<in> set (url_segments (base_url ?c))"
    and 3: "\<forall>path. py_endswith ''/'' (path_to_url id path ?c)"
    by blast+
  from 1 b have "path_to_url id ''index.md'' ?c = ''http://example.com/''"
    by simp
  moreover from 2 b s
  have "''index'' \<notin> set (url_segments (path_to_url id ''index.md'' ?c))"
    by (simp only: not_False_eq_True)
  moreover from 3 have "py_endswith ''/'' (path_to_url id ''a/b.c/.d'' ?c)"
    by blast
  ultimately show ?thesis
    by blast
qed

section \<open>Properties of the navigation builder\<close>

text \<open>
  Claim C1, as stated, fails: on the example page list the three \<open>Guide\<close> pages follow
  one another, so the result has two top-level items, not three, and one \<open>Guide\<close>
  group, not two.
\<close>

theorem generate_nav_example_counterexample:
  "length (generate_nav id (example_config ''/site'' False pages_c1)) \<noteq> 3
   \<and> length (filter (\<lambda>n. title n = ''Guide'')
         (generate_nav id (example_config ''/site'' False pages_c1))) \<noteq> 2"
  by code_simp


lemma takeWhile_upto: "c \<notin> set x \<Longrightarrow> takeWhile (\<lambda>a. a \<noteq> c) (x @ c # y) = x"
  by (induction x) auto

lemma dropWhile_upto: "c \<notin> set x \<Longrightarrow> dropWhile (\<lambda>a. a \<noteq> c) (x @ c # y) = c # y"
  by (induction x) auto


lemma strip_literals:
  "py_strip ''Intro'' = ''Intro''" "py_strip ''Guide'' = ''Guide''"
  "py_strip ''Setup'' = ''Setup''" "py_strip ''Run'' = ''Run''" "py_strip [] = []"
  by (simp_all add: py_strip_def py_isspace_def)

lemma partition_literals:
  "py_partition CHR ''/'' ''Intro'' = (''Intro'', [], [])"
  "py_partition CHR ''/'' ''Guide/Setup'' = (''Guide'', ''/'', ''Setup'')"
  "py_partition CHR ''/'' ''Guide/Run'' = (''Guide'', ''/'', ''Run'')"
  by (simp_all add: py_partition_def)

text \<open>
  Claim C1, amended. On the example page list \<open>generate_nav\<close> returns exactly two
  top-level items: the page \<open>Intro\<close> and one group \<open>Guide\<close> whose children are the
  pages \<open>b.md\<close>, \<open>c.md\<close> and \<open>d.md\<close>, in this order.
\<close>

theorem generate_nav_example:
  assumes "pages config = pages_c1"
  shows "generate_nav ghp config =
           [NavItem ''Intro'' (Some (path_to_url ghp ''a.md'' config)) [] False,
            NavItem ''Guide'' None
              [NavItem ''Setup'' (Some (path_to_url ghp ''b.md'' config)) [] False,
               NavItem ''Run'' (Some (path_to_url ghp ''c.md'' config)) [] False,
               NavItem ''Setup'' (Some (path_to_url ghp ''d.md'' config)) [] False]
              False]"
  unfolding generate_nav_def assms pages_c1_def
  by (simp add: nav_step_def Let_def partition_literals strip_literals new_NavItem_def
      append_child_def)

theorem generate_nav_example_witness:
  "generate_nav id (example_config ''/site'' False pages_c1) =
           [NavItem ''Intro'' (Some ''/site/a/'') [] False,
            NavItem ''Guide'' None
              [NavItem ''Setup'' (Some ''/site/b/'') [] False,
               NavItem ''Run'' (Some ''/site/c/'') [] False,
               NavItem ''Setup'' (Some ''/site/d/'') [] False]
              False]"
proof -
  have p: "pages (example_config ''/site'' False pages_c1) = pages_c1"
    by (simp add: example_config_def)
  have u: "path_to_url id ''a.md'' (example_config ''/site'' False pages_c1) = ''/site/a/''"
    "path_to_url id ''b.md'' (example_config ''/site'' False pages_c1) = ''/site/b/''"
    "path_to_url id ''c.md'' (example_config ''/site'' False pages_c1) = ''/site/c/''"
    "path_to_url id ''d.md'' (example_config ''/site'' False pages_c1) = ''/site/d/''"
    by code_simp+
  from generate_nav_example [OF p, of id] show ?thesis
    unfolding u .
qed





section \<open>Properties of the active-path marker\<close>

lemma children_loop_fst:
  "fst (children_loop u i j cs st) = map (\<lambda>c. set_active (url c = Some u) c) cs"
  by (induction cs arbitrary: j st) (auto simp: Let_def)

lemma children_loop_flag:
  "fst (snd (children_loop u i j cs (pa, act))) = (pa \<or> (\<exists>c\<in>set cs. url c = Some u))"
  by (induction cs arbitrary: j pa act) (auto simp: Let_def)


lemma nav_loop_fst: "fst (nav_loop u i ns act) = map (marked u) ns"
proof (induction ns arbitrary: i act)
  case Nil
  show ?case by simp
next
  case (Cons n ns)
  have "fst (snd (children_loop u i 0 (children n)
              (if url n = Some u then (True, Some [i]) else (False, act)))) = has_match u n"
    using children_loop_flag[of u i 0 "children n"] by (simp add: has_match_def)
  then show ?case
    using Cons.IH by (simp add: Let_def marked_def children_loop_fst)
qed


lemma set_active_sel [simp]:
  "title (set_active b n) = title n" "url (set_active b n) = url n"
  "children (set_active b n) = children n" "active (set_active b n) = b"
  by (simp_all add: set_active_def)

lemma marked_sel [simp]:
  "title (marked u n) = title n" "url (marked u n) = url n"
  "children (marked u n) = map (\<lambda>c. set_active (url c = Some u) c) (children n)"
  "active (marked u n) = has_match u n"
  by (simp_all add: marked_def)

lemma has_match_marked [simp]: "has_match u (marked v n) = has_match u n"
  by (auto simp: has_match_def)

lemma clear_active_marked: "clear_active (marked u n) = clear_active n"
  by (simp add: clear_active_def set_active_def)

lemma set_active_cong:
  assumes "set_active False c = set_active False d"
  shows "set_active b c = set_active b d" and "url c = url d"
proof -
  from assms have "title c = title d \<and> url c = url d \<and> children c = children d"
    by (simp add: set_active_def)
  then show "set_active b c = set_active b d" and "url c = url d"
    by (simp_all add: set_active_def)
qed

lemma children_loop_cong:
  "map (set_active False) cs = map (set_active False) ds \<Longrightarrow>
   children_loop u i j cs st = children_loop u i j ds st"
proof (induction cs arbitrary: ds j st)
  case Nil
  then show ?case by simp
next
  case (Cons c cs)
  then obtain d ds' where ds: "ds = d # ds'" and hd: "set_active False c = set_active False d"
    and tl: "map (set_active False) cs = map (set_active False) ds'"
    by (cases ds) auto
  from hd have e: "url c = url d" "\<And>b. set_active b c = set_active b d"
    by (rule set_active_cong)+
  show ?case
    unfolding ds using Cons.IH[OF tl] e by (simp add: Let_def)
qed

lemma nav_loop_cong:
  "map clear_active ns = map clear_active ms \<Longrightarrow> nav_loop u i ns act = nav_loop u i ms act"
proof (induction ns arbitrary: ms i act)
  case Nil
  then show ?case by simp
next
  case (Cons n ns)
  then obtain m ms' where ms: "ms = m # ms'" and hd: "clear_active n = clear_active m"
    and tl: "map clear_active ns = map clear_active ms'"
    by (cases ms) auto
  from hd have e: "title n = title m" "url n = url m"
    "map (set_active False) (children n) = map (set_active False) (children m)"
    by (simp_all add: clear_active_def)
  have c: "children_loop u i 0 (children n) st = children_loop u i 0 (children m) st" for st
    using e(3) by (rule children_loop_cong)
  show ?case
    unfolding ms using Cons.IH[OF tl] e(1,2) c by (simp add: Let_def)
qed

lemma set_nav_active_result:
  "snd (set_nav_active ghp path config nav) = map (marked (path_to_url ghp path config)) nav"
  by (simp add: set_nav_active_def Let_def nav_loop_fst)

text \<open>
  Claim C4. After a call, whatever the flags were before: only \<open>active\<close> flags have
  changed; a top-level item is active iff its own URL or the URL of one of its children
  is the page's URL; a child is active iff its URL is the page's URL; an item without
  URL is active only with an active child; and the outcome does not depend on the flags
  the tree had, so nothing of an earlier call survives.
\<close>

theorem set_nav_active_flags:
  "map clear_active (snd (set_nav_active ghp path config nav)) = map clear_active nav
   \<and> (\<forall>n\<in>set (snd (set_nav_active ghp path config nav)).
        active n \<longleftrightarrow> (url n = Some (path_to_url ghp path config)
                       \<or> (\<exists>c\<in>set (children n). url c = Some (path_to_url ghp path config))))
   \<and> (\<forall>n\<in>set (snd (set_nav_active ghp path config nav)). \<forall>c\<in>set (children n).
        active c \<longleftrightarrow> url c = Some (path_to_url ghp path config))
   \<and> (\<forall>n\<in>set (snd (set_nav_active ghp path config nav)).
        url n = None \<and> active n \<longrightarrow> (\<exists>c\<in>set (children n). active c))
   \<and> (\<forall>nav0. map clear_active nav0 = map clear_active nav \<longrightarrow>
        set_nav_active ghp path config nav0 = set_nav_active ghp path config nav)"
proof -
  let ?u = "path_to_url ghp path config"
  let ?nav1 = "snd (set_nav_active ghp path config nav)"
  have r: "?nav1 = map (marked ?u) nav"
    by (rule set_nav_active_result)
  have 1: "map clear_active ?nav1 = map clear_active nav"
    unfolding r by (simp add: clear_active_marked)
  have 2: "\<forall>n\<in>set ?nav1. active n \<longleftrightarrow>
             (url n = Some ?u \<or> (\<exists>c\<in>set (children n). url c = Some ?u))"
    unfolding r by (auto simp: has_match_def)
  have 3: "\<forall>n\<in>set ?nav1. \<forall>c\<in>set (children n). active c \<longleftrightarrow> url c = Some ?u"
    unfolding r by auto
  have 4: "\<forall>n\<in>set ?nav1. url n = None \<and> active n \<longrightarrow> (\<exists>c\<in>set (children n). active c)"
    unfolding r by (auto simp: has_match_def)
  have 5: "\<forall>nav0. map clear_active nav0 = map clear_active nav \<longrightarrow>
        set_nav_active ghp path config nav0 = set_nav_active ghp path config nav"
  proof (intro allI impI)
    fix nav0
    assume "map clear_active nav0 = map clear_active nav"
    then have "nav_loop ?u 0 nav0 None = nav_loop ?u 0 nav None"
      by (rule nav_loop_cong)
    then show "set_nav_active ghp path config nav0 = set_nav_active ghp path config nav"
      by (simp add: set_nav_active_def Let_def)
  qed
  from 1 2 3 4 5 show ?thesis by blast
qed

lemma opt_list_mem: "u \<in> set (opt_list x) \<longleftrightarrow> x = Some u"
  by (cases x) (auto simp: opt_list_def)

lemma node_urls_has_match: "has_match u n \<longleftrightarrow> u \<in> set (node_urls n)"
  by (simp add: has_match_def node_urls_def opt_list_mem)

lemma nav_urls_append [simp]: "nav_urls (xs @ ys) = nav_urls xs @ nav_urls ys"
  by (simp add: nav_urls_def)

lemma nav_urls_step:
  "nav_urls (nav_step ghp config ret page) = nav_urls ret @ [path_to_url ghp (fst page) config]"
proof -
  have leaf: "nav_urls [new_NavItem t (Some u) []] = [u]" for t u
    by (simp add: nav_urls_def node_urls_def new_NavItem_def opt_list_def)
  have grp: "nav_urls [new_NavItem t None [new_NavItem t' (Some u) []]] = [u]" for t t' u
    by (simp add: nav_urls_def node_urls_def new_NavItem_def opt_list_def)
  have app: "nav_urls (butlast ret @ [append_child (last ret) (new_NavItem t (Some u) [])])
        = nav_urls ret @ [u]" if "ret \<noteq> []" for t u
  proof -
    have "nav_urls [append_child (last ret) (new_NavItem t (Some u) [])]
        = nav_urls [last ret] @ [u]"
      by (simp add: nav_urls_def node_urls_def new_NavItem_def opt_list_def append_child_def)
    then have "nav_urls (butlast ret @ [append_child (last ret) (new_NavItem t (Some u) [])])
        = nav_urls (butlast ret @ [last ret]) @ [u]"
      by simp
    with that show ?thesis by simp
  qed
  show ?thesis
  proof (cases "py_strip (snd (snd (py_partition CHR ''/'' (snd page)))) = []")
    case True
    then show ?thesis
      by (simp add: nav_step_def Let_def leaf)
  next
    case False
    note nonblank = this
    show ?thesis
    proof (cases "ret = [] \<or> title (last ret) \<noteq> py_strip (fst (py_partition CHR ''/'' (snd page)))")
      case True
      with nonblank show ?thesis
        by (simp add: nav_step_def Let_def grp)
    next
      case False
      then have "ret \<noteq> []" by simp
      from app[OF this] False nonblank show ?thesis
        by (simp add: nav_step_def Let_def)
    qed
  qed
qed

lemma nav_urls_foldl:
  "nav_urls (foldl (nav_step ghp config) ret ps)
     = nav_urls ret @ map (\<lambda>pg. path_to_url ghp (fst pg) config) ps"
  by (induction ps arbitrary: ret) (simp_all add: nav_urls_step)

lemma nav_urls_generate_nav:
  "nav_urls (generate_nav ghp config) = map (\<lambda>pg. path_to_url ghp (fst pg) config) (pages config)"
  using nav_urls_foldl[of ghp config "[]" "pages config"]
  by (simp add: generate_nav_def nav_urls_def)



theorem set_nav_active_flags_witness:
  "set_nav_active id ''c.md'' (example_config ''/site'' False pages_c1)
     (snd (set_nav_active id ''a.md'' (example_config ''/site'' False pages_c1)
            (generate_nav id (example_config ''/site'' False pages_c1))))
   = set_nav_active id ''c.md'' (example_config ''/site'' False pages_c1)
       (generate_nav id (example_config ''/site'' False pages_c1))
   \<and> snd (set_nav_active id ''c.md'' (example_config ''/site'' False pages_c1)
       (generate_nav id (example_config ''/site'' False pages_c1)))
     = [NavItem ''Intro'' (Some ''/site/a/'') [] False,
        NavItem ''Guide'' None
          [NavItem ''Setup'' (Some ''/site/b/'') [] False,
           NavItem ''Run'' (Some ''/site/c/'') [] True,
           NavItem ''Setup'' (Some ''/site/d/'') [] False]
          True]"
proof -
  let ?c = "example_config ''/site'' False pages_c1"
  let ?g = "generate_nav id ?c"
  let ?n0 = "snd (set_nav_active id ''a.md'' ?c ?g)"
  from set_nav_active_flags[of id "''a.md''" ?c ?g]
  have "map clear_active ?n0 = map clear_active ?g"
    by blast
  moreover from set_nav_active_flags[of id "''c.md''" ?c ?g]
  have "\<forall>nav0. map clear_active nav0 = map clear_active ?g \<longrightarrow>
        set_nav_active id ''c.md'' ?c nav0 = set_nav_active id ''c.md'' ?c ?g"
    by blast
  ultimately have "set_nav_active id ''c.md'' ?c ?n0 = set_nav_active id ''c.md'' ?c ?g"
    by blast
  moreover have "snd (set_nav_active id ''c.md'' ?c ?g)
     = [NavItem ''Intro'' (Some ''/site/a/'') [] False,
        NavItem ''Guide'' None
          [NavItem ''Setup'' (Some ''/site/b/'') [] False,
           NavItem ''Run'' (Some ''/site/c/'') [] True,
           NavItem ''Setup'' (Some ''/site/d/'') [] False]
          True]"
    by code_simp
  ultimately show ?thesis
    by blast
qed


text \<open>
  Claim C3, as stated, fails: a page inside a group makes both its own item and the
  group active, two items in all.
\<close>

theorem count_active_counterexample:
  "\<not> count_active
        (snd (set_nav_active id ''b.md''
               (example_config ''/site'' False [(''b.md'', ''Guide/Setup'')])
               (generate_nav id (example_config ''/site'' False [(''b.md'', ''Guide/Setup'')]))))
      \<le> 1"
  by code_simp

lemma distinct_concat_filter:
  "distinct (concat xss) \<Longrightarrow> length (filter (\<lambda>xs. u \<in> set xs) xss) \<le> 1"
proof (induction xss)
  case Nil
  show ?case by simp
next
  case (Cons xs xss)
  then have d: "distinct (concat xss)" and i: "set xs \<inter> set (concat xss) = {}"
    by auto
  show ?case
  proof (cases "u \<in> set xs")
    case True
    with i have "\<forall>ys\<in>set xss. u \<notin> set ys" by auto
    then have "filter (\<lambda>xs. u \<in> set xs) xss = []"
      by (simp add: filter_empty_conv)
    with True show ?thesis by simp
  next
    case False
    with Cons.IH[OF d] show ?thesis by simp
  qed
qed

lemma child_urls_Cons:
  "child_urls (n # ns) = concat (map (\<lambda>c. opt_list (url c)) (children n)) @ child_urls ns"
  by (simp add: child_urls_def)

lemma nav_urls_Cons:
  "nav_urls (n # ns) = opt_list (url n) @ concat (map (\<lambda>c. opt_list (url c)) (children n))
                         @ nav_urls ns"
  by (simp add: nav_urls_def node_urls_def)

lemma child_urls_subset: "set (child_urls nav) \<subseteq> set (nav_urls nav)"
proof (induction nav)
  case Nil
  show ?case by (simp add: child_urls_def nav_urls_def)
next
  case (Cons n ns)
  then show ?case
    unfolding child_urls_Cons nav_urls_Cons by auto
qed

lemma distinct_child_urls: "distinct (nav_urls nav) \<Longrightarrow> distinct (child_urls nav)"
proof (induction nav)
  case Nil
  show ?case by (simp add: child_urls_def)
next
  case (Cons n ns)
  let ?C = "concat (map (\<lambda>c. opt_list (url c)) (children n))"
  from Cons.prems have dC: "distinct ?C" and dR: "distinct (nav_urls ns)"
    and i: "set ?C \<inter> set (nav_urls ns) = {}"
    unfolding nav_urls_Cons by auto
  from i child_urls_subset[of ns] have "set ?C \<inter> set (child_urls ns) = {}"
    by blast
  with dC Cons.IH[OF dR] show ?case
    unfolding child_urls_Cons by simp
qed

lemma children_marked:
  "concat (map children (map (marked u) nav))
     = map (\<lambda>c. set_active (url c = Some u) c) (concat (map children nav))"
  by (induction nav) simp_all

lemma active_tops_le_1:
  assumes "distinct (nav_urls nav)"
  shows "length (filter active (map (marked u) nav)) \<le> 1"
proof -
  have "length (filter active (map (marked u) nav))
      = length (filter (\<lambda>n. u \<in> set (node_urls n)) nav)"
    by (simp add: filter_map o_def node_urls_has_match)
  also have "\<dots> = length (filter (\<lambda>xs. u \<in> set xs) (map node_urls nav))"
    by (simp add: filter_map o_def)
  also have "\<dots> \<le> 1"
    using assms unfolding nav_urls_def by (rule distinct_concat_filter)
  finally show ?thesis .
qed

lemma active_children_le_1:
  assumes "distinct (nav_urls nav)"
  shows "length (filter active (concat (map children (map (marked u) nav)))) \<le> 1"
proof -
  let ?cs = "concat (map children nav)"
  have "length (filter active (concat (map children (map (marked u) nav))))
      = length (filter (\<lambda>c. u \<in> set (opt_list (url c))) ?cs)"
    unfolding children_marked by (simp add: filter_map o_def opt_list_mem)
  also have "\<dots> = length (filter (\<lambda>xs. u \<in> set xs) (map (\<lambda>c. opt_list (url c)) ?cs))"
    by (simp add: filter_map o_def)
  also have "\<dots> \<le> 1"
    using distinct_child_urls[OF assms] unfolding child_urls_def
    by (rule distinct_concat_filter)
  finally show ?thesis .
qed

text \<open>
  Claim C3, amended. When the declared pages resolve to pairwise distinct URLs, after a
  call on the tree of \<open>generate_nav\<close> at most one top-level item and at most one child
  are active, hence at most two items in the whole tree.
\<close>

theorem at_most_one_active_per_level:
  assumes "distinct (map (\<lambda>pg. path_to_url ghp (fst pg) config) (pages config))"
  shows "length (filter active
           (snd (set_nav_active ghp path config (generate_nav ghp config)))) \<le> 1
       \<and> length (filter active (concat (map children
           (snd (set_nav_active ghp path config (generate_nav ghp config)))))) \<le> 1
       \<and> count_active (snd (set_nav_active ghp path config (generate_nav ghp config))) \<le> 2"
proof -
  let ?u = "path_to_url ghp path config"
  let ?g = "generate_nav ghp config"
  have d: "distinct (nav_urls ?g)"
    using assms by (simp add: nav_urls_generate_nav)
  have r: "snd (set_nav_active ghp path config ?g) = map (marked ?u) ?g"
    by (rule set_nav_active_result)
  have 1: "length (filter active (map (marked ?u) ?g)) \<le> 1"
    using d by (rule active_tops_le_1)
  have 2: "length (filter active (concat (map children (map (marked ?u) ?g)))) \<le> 1"
    using d by (rule active_children_le_1)
  from 1 2 show ?thesis
    unfolding r count_active_def by linarith
qed

theorem at_most_one_active_per_level_witness:
  "length (filter active
           (snd (set_nav_active id ''c.md'' (example_config ''/site'' False pages_c1)
              (generate_nav id (example_config ''/site'' False pages_c1))))) \<le> 1
       \<and> length (filter active (concat (map children
           (snd (set_nav_active id ''c.md'' (example_config ''/site'' False pages_c1)
              (generate_nav id (example_config ''/site'' False pages_c1))))))) \<le> 1
       \<and> count_active (snd (set_nav_active id ''c.md'' (example_config ''/site'' False pages_c1)
              (generate_nav id (example_config ''/site'' False pages_c1)))) \<le> 2"
proof -
  have "distinct (map (\<lambda>pg. path_to_url id (fst pg) (example_config ''/site'' False pages_c1))
          (pages (example_config ''/site'' False pages_c1)))"
    by code_simp
  then show ?thesis
    by (rule at_most_one_active_per_level)
qed

section \<open>Properties of the table-of-contents extractor\<close>

text \<open>
  Claim C2, as stated, fails: when the six lines of the example stand between two
  wrapper lines on each side, the scan reaches the closing \<open></ul>\<close> of the outer list
  with an empty stack, and \<open>parents.pop()\<close> raises IndexError.
\<close>

theorem generate_toc_example_counterexample:
  "py_splitlines (join_lines ([''<div>'', ''<nav>''] @ toc_six @ [''</nav>'', ''</div>'']))
     = [''<div>'', ''<nav>''] @ toc_six @ [''</nav>'', ''</div>'']
   \<and> generate_toc (join_lines ([''<div>'', ''<nav>''] @ toc_six @ [''</nav>'', ''</div>'']))
     = Inl IndexError"
  by code_simp

lemma toc_loop_five:
  "toc_loop toc_five ([], []) =
     Inr ([NavItem ''A'' (Some ''#a'') [NavItem ''A1'' (Some ''#a-1'') [] False] False], [])"
  by code_simp

lemma slice_2_m2_wrapped: "slice_2_m2 ([w1, w2] @ ls @ [w3, w4]) = ls"
  by (simp add: slice_2_m2_def)

text \<open>
  Claim C2, amended. When the closing \<open></ul>\<close> of the outer list is one of the two
  trailing wrapper lines, so that the scanned lines are the first five of the example,
  \<open>generate_toc\<close> returns normally: one top-level item \<open>A\<close> with href \<open>#a\<close>, active,
  whose only child is \<open>A1\<close> with href \<open>#a-1\<close>.
\<close>

theorem generate_toc_example:
  assumes "py_splitlines toc_html = [w1, w2] @ toc_five @ [w3, w4]"
  shows "generate_toc toc_html =
           Inr [NavItem ''A'' (Some ''#a'') [NavItem ''A1'' (Some ''#a-1'') [] False] True]"
proof -
  have "slice_2_m2 (py_splitlines toc_html) = toc_five"
    unfolding assms by (rule slice_2_m2_wrapped)
  then show ?thesis
    by (simp add: generate_toc_def Let_def toc_loop_five set_active_def)
qed

theorem generate_toc_example_witness:
  "py_splitlines (join_lines ([[], ''<div>''] @ toc_five @ [''</ul>'', ''</div>'']))
     = [[], ''<div>''] @ toc_five @ [''</ul>'', ''</div>'']
   \<and> generate_toc (join_lines ([[], ''<div>''] @ toc_five @ [''</ul>'', ''</div>'']))
     = Inr [NavItem ''A'' (Some ''#a'') [NavItem ''A1'' (Some ''#a-1'') [] False] True]"
proof -
  have s: "py_splitlines (join_lines ([[], ''<div>''] @ toc_five @ [''</ul>'', ''</div>'']))
     = [[], ''<div>''] @ toc_five @ [''</ul>'', ''</div>'']"
    by code_simp
  from s generate_toc_example[OF s] show ?thesis
    by blast
qed

section \<open>Properties of the link rewriting\<close>

lemma dquote_neq [simp]:
  "dquote \<noteq> CHR ''a''" "dquote \<noteq> CHR '' ''" "dquote \<noteq> CHR ''h''" "dquote \<noteq> CHR ''r''"
  "dquote \<noteq> CHR ''e''" "dquote \<noteq> CHR ''f''" "dquote \<noteq> CHR ''=''"
  by (simp_all add: dquote_def)

lemma first_sep_unique:
  assumes "c \<notin> set A" and "c \<notin> set A'" and "A @ c # B = A' @ c # B'"
  shows "A = A' \<and> B = B'"
proof -
  from assms(3) have "takeWhile (\<lambda>a. a \<noteq> c) (A @ c # B) = takeWhile (\<lambda>a. a \<noteq> c) (A' @ c # B')"
    by simp
  with assms(1,2) have "A = A'"
    by (simp add: takeWhile_upto)
  with assms(3) show ?thesis by simp
qed

lemma link_match_intro:
  assumes "dquote \<notin> set g" and "py_endswith ''.md'' g"
  shows "link_match (''a href='' @ dquote # g @ dquote # rest) = Some (g, rest)"
  using assms by (simp add: link_match_def py_startswith_def takeWhile_upto dropWhile_upto)

lemma link_match_elim:
  assumes "link_match s = Some (g, rest)"
  shows "s = ''a href='' @ dquote # g @ dquote # rest \<and> dquote \<notin> set g \<and> py_endswith ''.md'' g"
proof -
  let ?P = "\<lambda>c. c \<noteq> dquote"
  let ?r = "drop 8 s"
  from assms have sw: "py_startswith (''a href='' @ [dquote]) s" and ne: "dropWhile ?P ?r \<noteq> []"
    and e: "py_endswith ''.md'' g" and g: "g = takeWhile ?P ?r" and r: "rest = tl (dropWhile ?P ?r)"
    by (auto simp: link_match_def Let_def split: if_splits)
  have l: "length (''a href='' @ [dquote]) = 8" by simp
  from sw have st: "take 8 s = ''a href='' @ [dquote]"
    unfolding py_startswith_def l .
  from ne have "hd (dropWhile ?P ?r) = dquote"
    using hd_dropWhile[of ?P ?r] by simp
  with ne r have "dropWhile ?P ?r = dquote # rest"
    by (cases "dropWhile ?P ?r") auto
  with g have "?r = g @ dquote # rest"
    using takeWhile_dropWhile_id[of ?P ?r] by simp
  moreover have "s = take 8 s @ ?r" by simp
  ultimately have "s = ''a href='' @ dquote # g @ dquote # rest"
    using st by simp
  moreover from g have "dquote \<notin> set g"
    by (auto dest: set_takeWhileD)
  ultimately show ?thesis using e by blast
qed

lemma link_match_extend:
  assumes "link_match s = Some (g, rest)"
  shows "link_match (s @ x) = Some (g, rest @ x)"
proof -
  from link_match_elim[OF assms]
  have s: "s = ''a href='' @ dquote # g @ dquote # rest" and q: "dquote \<notin> set g"
    and e: "py_endswith ''.md'' g"
    by blast+
  have "s @ x = ''a href='' @ dquote # g @ dquote # (rest @ x)"
    by (subst s) simp
  then show ?thesis
    using link_match_intro[OF q e, of "rest @ x"] by simp
qed

lemma not_md_after_href: "\<not> py_endswith ''.md'' (p @ ''a href='')"
proof
  assume "py_endswith ''.md'' (p @ ''a href='')"
  then obtain t where "p @ ''a href='' = t @ ''.md''"
    using py_endswith_append by blast
  then have "last (p @ ''a href='') = last (t @ ''.md'')"
    by (rule arg_cong)
  then show False by simp
qed

lemma link_match_none_extend:
  assumes "link_match pre = None" and "pre \<noteq> []"
  shows "link_match (pre @ ''a href='' @ dquote # y) = None"
proof (rule ccontr)
  assume "link_match (pre @ ''a href='' @ dquote # y) \<noteq> None"
  then obtain g rest where m: "link_match (pre @ ''a href='' @ dquote # y) = Some (g, rest)"
    by auto
  from link_match_elim[OF m]
  have eq: "pre @ ''a href='' @ dquote # y = ''a href='' @ dquote # g @ dquote # rest"
    and qg: "dquote \<notin> set g" and e: "py_endswith ''.md'' g"
    by blast+
  show False
  proof (cases "dquote \<in> set pre")
    case False
    then have "dquote \<notin> set (pre @ ''a href='')" by simp
    moreover from eq have "(pre @ ''a href='') @ dquote # y = ''a href='' @ dquote # g @ dquote # rest"
      by simp
    ultimately have "pre @ ''a href='' = ''a href=''"
      using first_sep_unique[of dquote "pre @ ''a href=''" "''a href=''" y "g @ dquote # rest"]
      by simp
    with assms(2) show False by simp
  next
    case True
    then obtain p1 p2 where pre: "pre = p1 @ dquote # p2" and q1: "dquote \<notin> set p1"
      by (auto dest: split_list_first)
    from eq have "p1 @ dquote # (p2 @ ''a href='' @ dquote # y)
        = ''a href='' @ dquote # g @ dquote # rest"
      by (simp add: pre)
    with q1 have p1: "p1 = ''a href=''" and tl: "p2 @ ''a href='' @ dquote # y = g @ dquote # rest"
      using first_sep_unique[of dquote p1 "''a href=''" "p2 @ ''a href='' @ dquote # y"
          "g @ dquote # rest"]
      by simp_all
    show False
    proof (cases "dquote \<in> set p2")
      case False
      then have "dquote \<notin> set (p2 @ ''a href='')" by simp
      moreover from tl have "(p2 @ ''a href='') @ dquote # y = g @ dquote # rest" by simp
      ultimately have "p2 @ ''a href='' = g"
        using qg first_sep_unique[of dquote "p2 @ ''a href=''" g y rest] by simp
      with e not_md_after_href[of p2] show False by simp
    next
      case True
      then obtain g' r' where p2: "p2 = g' @ dquote # r'" and q2: "dquote \<notin> set g'"
        by (auto dest: split_list_first)
      from tl have "g' @ dquote # (r' @ ''a href='' @ dquote # y) = g @ dquote # rest"
        by (simp add: p2)
      with q2 qg have "g' = g"
        using first_sep_unique[of dquote g' g "r' @ ''a href='' @ dquote # y" rest] by simp
      then have "pre = ''a href='' @ dquote # g @ dquote # r'"
        by (simp add: pre p1 p2)
      then have "link_match pre = Some (g, r')"
        using link_match_intro[OF qg e, of r'] by simp
      with assms(1) show False by simp
    qed
  qed
qed

lemma rewrite_links_Nil: "rewrite_links ghp config [] = []"
  by (simp add: rewrite_links.simps link_match_def py_startswith_def)

lemma rewrite_links_skip:
  "link_match (c # cs) = None \<Longrightarrow>
   rewrite_links ghp config (c # cs) = c # rewrite_links ghp config cs"
  by (subst rewrite_links.simps) simp

lemma rewrite_links_hit:
  "link_match s = Some (g, rest) \<Longrightarrow>
   rewrite_links ghp config s = PathToURL ghp config g @ rewrite_links ghp config rest"
  by (subst rewrite_links.simps) simp

lemma rewrite_links_prefix:
  "rewrite_links ghp config (pre @ ''a href='' @ dquote # y)
     = rewrite_links ghp config pre @ rewrite_links ghp config (''a href='' @ dquote # y)"
proof (induction ghp config pre rule: rewrite_links.induct)
  case (1 ghp config s)
  show ?case
  proof (cases "link_match s")
    case (Some a)
    then obtain g rest where m: "link_match s = Some (g, rest)"
      by (cases a) auto
    from link_match_extend[OF m, of "''a href='' @ dquote # y"]
    have "rewrite_links ghp config (s @ ''a href='' @ dquote # y)
        = PathToURL ghp config g @ rewrite_links ghp config (rest @ ''a href='' @ dquote # y)"
      by (rule rewrite_links_hit)
    also have "\<dots> = PathToURL ghp config g @ rewrite_links ghp config rest
        @ rewrite_links ghp config (''a href='' @ dquote # y)"
      using "1.IH"(2)[OF m refl] by simp
    also have "\<dots> = rewrite_links ghp config s
        @ rewrite_links ghp config (''a href='' @ dquote # y)"
      using rewrite_links_hit[OF m] by simp
    finally show ?thesis .
  next
    case None
    show ?thesis
    proof (cases s)
      case Nil
      then show ?thesis by (simp add: rewrite_links_Nil)
    next
      case (Cons c cs)
      with None have n: "link_match ((c # cs) @ ''a href='' @ dquote # y) = None"
        by (intro link_match_none_extend) simp_all
      then have "rewrite_links ghp config ((c # cs) @ ''a href='' @ dquote # y)
          = c # rewrite_links ghp config (cs @ ''a href='' @ dquote # y)"
        using rewrite_links_skip[of c "cs @ ''a href='' @ dquote # y"] by simp
      also have "\<dots> = c # rewrite_links ghp config cs
          @ rewrite_links ghp config (''a href='' @ dquote # y)"
        using "1.IH"(1)[OF None Cons] by simp
      also have "\<dots> = rewrite_links ghp config (c # cs)
          @ rewrite_links ghp config (''a href='' @ dquote # y)"
        using None Cons rewrite_links_skip[of c cs] by simp
      finally show ?thesis using Cons by simp
    qed
  qed
qed

lemma link_match_at_quote: "link_match (dquote # post) = None"
  by (simp add: link_match_def py_startswith_def)

lemma scan_to_quote:
  assumes "dquote \<notin> set w"
  shows "rewrite_links ghp config (w @ dquote # post) = w @ dquote # rewrite_links ghp config post
       \<or> (\<exists>w0 g rest. w = w0 @ ''a href='' \<and> post = g @ dquote # rest \<and> dquote \<notin> set g
             \<and> py_endswith ''.md'' g
             \<and> rewrite_links ghp config (w @ dquote # post)
                 = w @ dquote # path_to_url ghp g config @ dquote # rewrite_links ghp config rest)"
  using assms
proof (induction w)
  case Nil
  have "rewrite_links ghp config (dquote # post) = dquote # rewrite_links ghp config post"
    using link_match_at_quote by (rule rewrite_links_skip)
  then show ?case by simp
next
  case (Cons c w)
  then have qw: "dquote \<notin> set w" and qc: "dquote \<notin> set (c # w)"
    by simp_all
  show ?case
  proof (cases "link_match ((c # w) @ dquote # post)")
    case (Some a)
    then obtain g rest where m: "link_match ((c # w) @ dquote # post) = Some (g, rest)"
      by (cases a) auto
    from link_match_elim[OF m]
    have eq: "(c # w) @ dquote # post = ''a href='' @ dquote # g @ dquote # rest"
      and qg: "dquote \<notin> set g" and e: "py_endswith ''.md'' g"
      by blast+
    from qc eq have w: "c # w = ''a href=''" and p: "post = g @ dquote # rest"
      using first_sep_unique[of dquote "c # w" "''a href=''" post "g @ dquote # rest"]
      by simp_all
    have "rewrite_links ghp config ((c # w) @ dquote # post)
        = PathToURL ghp config g @ rewrite_links ghp config rest"
      using m by (rule rewrite_links_hit)
    also have "\<dots> = (c # w) @ dquote # path_to_url ghp g config @ dquote
        # rewrite_links ghp config rest"
      unfolding w by (simp add: PathToURL_def)
    finally have "c # w = [] @ ''a href='' \<and> post = g @ dquote # rest \<and> dquote \<notin> set g
        \<and> py_endswith ''.md'' g
        \<and> rewrite_links ghp config ((c # w) @ dquote # post)
            = (c # w) @ dquote # path_to_url ghp g config @ dquote # rewrite_links ghp config rest"
      using w p qg e by simp
    then show ?thesis by blast
  next
    case None
    then have step: "rewrite_links ghp config ((c # w) @ dquote # post)
        = c # rewrite_links ghp config (w @ dquote # post)"
      using rewrite_links_skip[of c "w @ dquote # post"] by simp
    from Cons.IH[OF qw] show ?thesis
    proof
      assume "rewrite_links ghp config (w @ dquote # post)
          = w @ dquote # rewrite_links ghp config post"
      with step show ?thesis by simp
    next
      assume "\<exists>w0 g rest. w = w0 @ ''a href='' \<and> post = g @ dquote # rest \<and> dquote \<notin> set g
             \<and> py_endswith ''.md'' g
             \<and> rewrite_links ghp config (w @ dquote # post)
                 = w @ dquote # path_to_url ghp g config @ dquote # rewrite_links ghp config rest"
      then obtain w0 g rest where "w = w0 @ ''a href=''" "post = g @ dquote # rest"
        "dquote \<notin> set g" "py_endswith ''.md'' g"
        "rewrite_links ghp config (w @ dquote # post)
           = w @ dquote # path_to_url ghp g config @ dquote # rewrite_links ghp config rest"
        by blast
      with step have "c # w = (c # w0) @ ''a href='' \<and> post = g @ dquote # rest
          \<and> dquote \<notin> set g \<and> py_endswith ''.md'' g
          \<and> rewrite_links ghp config ((c # w) @ dquote # post)
              = (c # w) @ dquote # path_to_url ghp g config @ dquote
                  # rewrite_links ghp config rest"
        by simp
      then show ?thesis by blast
    qed
  qed
qed

lemma rewrite_md_link:
  assumes "dquote \<notin> set t" and "py_endswith ''.md'' t"
  shows "rewrite_links ghp config (pre @ ''a href='' @ [dquote] @ t @ [dquote] @ post)
       = rewrite_links ghp config pre @ ''a href='' @ [dquote] @ path_to_url ghp t config
           @ [dquote] @ rewrite_links ghp config post"
proof -
  have "rewrite_links ghp config (''a href='' @ dquote # t @ dquote # post)
      = PathToURL ghp config t @ rewrite_links ghp config post"
    using link_match_intro[OF assms] by (rule rewrite_links_hit)
  with rewrite_links_prefix[of ghp config pre "t @ dquote # post"]
  show ?thesis
    by (simp add: PathToURL_def)
qed

lemma rewrite_no_md_link:
  assumes "\<forall>pre t post. s = pre @ ''a href='' @ [dquote] @ t @ [dquote] @ post
             \<longrightarrow> dquote \<in> set t \<or> \<not> py_endswith ''.md'' t"
  shows "rewrite_links ghp config s = s"
  using assms
proof (induction s)
  case Nil
  show ?case by (rule rewrite_links_Nil)
next
  case (Cons c cs)
  have "link_match (c # cs) = None"
  proof (rule ccontr)
    assume "link_match (c # cs) \<noteq> None"
    then obtain g rest where "link_match (c # cs) = Some (g, rest)"
      by auto
    from link_match_elim[OF this]
    have "c # cs = [] @ ''a href='' @ [dquote] @ g @ [dquote] @ rest"
      and "dquote \<notin> set g" and "py_endswith ''.md'' g"
      by simp_all
    with Cons.prems show False by blast
  qed
  moreover have "rewrite_links ghp config cs = cs"
  proof (rule Cons.IH, intro allI impI)
    fix pre t post
    assume "cs = pre @ ''a href='' @ [dquote] @ t @ [dquote] @ post"
    then have "c # cs = (c # pre) @ ''a href='' @ [dquote] @ t @ [dquote] @ post"
      by simp
    with Cons.prems show "dquote \<in> set t \<or> \<not> py_endswith ''.md'' t"
      by blast
  qed
  ultimately show ?case
    using rewrite_links_skip[of c cs ghp config] by simp
qed

lemma rewrite_other_link:
  assumes "dquote \<notin> set t" and "\<not> py_endswith ''.md'' t"
  shows "\<exists>post'. rewrite_links ghp config (pre @ ''a href='' @ [dquote] @ t @ [dquote] @ post)
           = rewrite_links ghp config pre @ ''a href='' @ [dquote] @ t @ [dquote] @ post'
         \<and> (py_endswith ''a href='' t \<or> post' = rewrite_links ghp config post)"
proof -
  have a: "rewrite_links ghp config (pre @ ''a href='' @ [dquote] @ t @ [dquote] @ post)
      = rewrite_links ghp config pre
        @ rewrite_links ghp config (''a href='' @ dquote # t @ dquote # post)"
    using rewrite_links_prefix[of ghp config pre "t @ dquote # post"] by simp
  have q: "dquote \<notin> set ''a href=''" by simp
  have "\<not> (\<exists>w0 g rest. ''a href='' = w0 @ ''a href='' \<and> t @ dquote # post = g @ dquote # rest
        \<and> dquote \<notin> set g \<and> py_endswith ''.md'' g
        \<and> rewrite_links ghp config (''a href='' @ dquote # t @ dquote # post)
            = ''a href='' @ dquote # path_to_url ghp g config @ dquote
                # rewrite_links ghp config rest)"
  proof
    assume "\<exists>w0 g rest. ''a href='' = w0 @ ''a href='' \<and> t @ dquote # post = g @ dquote # rest
        \<and> dquote \<notin> set g \<and> py_endswith ''.md'' g
        \<and> rewrite_links ghp config (''a href='' @ dquote # t @ dquote # post)
            = ''a href='' @ dquote # path_to_url ghp g config @ dquote
                # rewrite_links ghp config rest"
    then obtain g rest where "t @ dquote # post = g @ dquote # rest" "dquote \<notin> set g"
      "py_endswith ''.md'' g"
      by blast
    with assms(1) first_sep_unique[of dquote t g post rest] have "py_endswith ''.md'' t"
      by simp
    with assms(2) show False by simp
  qed
  with scan_to_quote[OF q, of ghp config "t @ dquote # post"]
  have b: "rewrite_links ghp config (''a href='' @ dquote # t @ dquote # post)
      = ''a href='' @ dquote # rewrite_links ghp config (t @ dquote # post)"
    by blast
  from scan_to_quote[OF assms(1), of ghp config post]
  have "\<exists>post'. rewrite_links ghp config (t @ dquote # post) = t @ dquote # post'
      \<and> (py_endswith ''a href='' t \<or> post' = rewrite_links ghp config post)"
    by (auto simp: py_endswith_append)
  then obtain post' where "rewrite_links ghp config (t @ dquote # post) = t @ dquote # post'"
    "py_endswith ''a href='' t \<or> post' = rewrite_links ghp config post"
    by blast
  with a b have "rewrite_links ghp config (pre @ ''a href='' @ [dquote] @ t @ [dquote] @ post)
           = rewrite_links ghp config pre @ ''a href='' @ [dquote] @ t @ [dquote] @ post'
         \<and> (py_endswith ''a href='' t \<or> post' = rewrite_links ghp config post)"
    by simp
  then show ?thesis by blast
qed

text \<open>
  Claim C8. In the link rewrite of the page renderer, an occurrence of \<open>a href="t"\<close>
  whose target \<open>t\<close> ends in \<open>.md\<close> comes out as \<open>a href="u"\<close> with \<open>u\<close> the URL of
  \<open>t\<close>, between the rewritten text before it and the rewritten text after it; an
  occurrence whose target does not end in \<open>.md\<close> comes out unchanged (and the text
  after it is rewritten on its own, unless the target itself ends in the seven characters
  that open a link); and a text in which no target ends in \<open>.md\<close> is returned as it is.
\<close>

theorem link_rewrite:
  "(dquote \<notin> set t \<and> py_endswith ''.md'' t \<longrightarrow>
      rewrite_links ghp config (pre @ ''a href='' @ [dquote] @ t @ [dquote] @ post)
        = rewrite_links ghp config pre @ ''a href='' @ [dquote] @ path_to_url ghp t config
            @ [dquote] @ rewrite_links ghp config post)
   \<and> (dquote \<notin> set t \<and> \<not> py_endswith ''.md'' t \<longrightarrow>
      (\<exists>post'. rewrite_links ghp config (pre @ ''a href='' @ [dquote] @ t @ [dquote] @ post)
           = rewrite_links ghp config pre @ ''a href='' @ [dquote] @ t @ [dquote] @ post'
         \<and> (py_endswith ''a href='' t \<or> post' = rewrite_links ghp config post)))
   \<and> ((\<forall>pre t post. s = pre @ ''a href='' @ [dquote] @ t @ [dquote] @ post
             \<longrightarrow> dquote \<in> set t \<or> \<not> py_endswith ''.md'' t)
        \<longrightarrow> rewrite_links ghp config s = s)"
  using rewrite_md_link[of t ghp config pre post] rewrite_other_link[of t ghp config pre post]
    rewrite_no_md_link[of s ghp config]
  by blast

theorem link_rewrite_witness:
  "rewrite_links id (example_config ''/site'' False [])
     (''<'' @ ''a href='' @ [dquote] @ ''other.md'' @ [dquote] @ ''>other.md</a>'')
   = ''<'' @ ''a href='' @ [dquote] @ ''/site/other/'' @ [dquote] @ ''>other.md</a>''
   \<and> rewrite_links id (example_config ''/site'' False [])
     (''<'' @ ''a href='' @ [dquote] @ ''http://external'' @ [dquote] @ ''>ext</a>'')
   = ''<'' @ ''a href='' @ [dquote] @ ''http://external'' @ [dquote] @ ''>ext</a>''"
proof -
  let ?c = "example_config ''/site'' False []"
  have q1: "dquote \<notin> set ''other.md'' \<and> py_endswith ''.md'' ''other.md''"
    by (simp add: dquote_def py_endswith_def)
  have q2: "dquote \<notin> set ''http://external'' \<and> \<not> py_endswith ''.md'' ''http://external''"
    by (simp add: dquote_def py_endswith_def)
  have q3: "\<not> py_endswith ''a href='' ''http://external''"
    by (simp add: py_endswith_def)
  have r: "rewrite_links id ?c ''<'' = ''<''"
    "rewrite_links id ?c ''>other.md</a>'' = ''>other.md</a>''"
    "rewrite_links id ?c ''>ext</a>'' = ''>ext</a>''"
    by code_simp+
  have u: "path_to_url id ''other.md'' ?c = ''/site/other/''"
    by code_simp
  from link_rewrite[of "''other.md''" id ?c "''<''" "''>other.md</a>''"] q1
  have "rewrite_links id ?c (''<'' @ ''a href='' @ [dquote] @ ''other.md'' @ [dquote] @ ''>other.md</a>'')
      = rewrite_links id ?c ''<'' @ ''a href='' @ [dquote] @ path_to_url id ''other.md'' ?c
          @ [dquote] @ rewrite_links id ?c ''>other.md</a>''"
    by blast
  then have 1: "rewrite_links id ?c (''<'' @ ''a href='' @ [dquote] @ ''other.md'' @ [dquote] @ ''>other.md</a>'')
      = ''<'' @ ''a href='' @ [dquote] @ ''/site/other/'' @ [dquote] @ ''>other.md</a>''"
    unfolding r u .
  from link_rewrite[of "''http://external''" id ?c "''<''" "''>ext</a>''"] q2 q3
  have "rewrite_links id ?c (''<'' @ ''a href='' @ [dquote] @ ''http://external'' @ [dquote] @ ''>ext</a>'')
      = rewrite_links id ?c ''<'' @ ''a href='' @ [dquote] @ ''http://external'' @ [dquote]
          @ rewrite_links id ?c ''>ext</a>''"
    by blast
  then have 2: "rewrite_links id ?c (''<'' @ ''a href='' @ [dquote] @ ''http://external'' @ [dquote] @ ''>ext</a>'')
      = ''<'' @ ''a href='' @ [dquote] @ ''http://external'' @ [dquote] @ ''>ext</a>''"
    unfolding r .
  from 1 2 show ?thesis by blast
qed

end
